theory Spec2Isabelle
  imports Complex_Main "HOL-Library.Word"
begin

unbundle bit_operations_syntax

section \<open>Venachain: sealing worker, peer set and contract return encoding\<close>

text \<open>
  A shallow embedding of the parts of the repository that the claims are about:
  \<^item> \<open>peerSet\<close> (package eth): \<open>Register\<close>, \<open>Unregister\<close>, \<open>Close\<close>;
  \<^item> \<open>MakeReturnBytes\<close> (core/vm/util.go);
  \<^item> the sealing worker (miner/worker.go).
\<close>

subsection \<open>Common types\<close>

type_synonym byte = "8 word"
type_synonym uint64 = "64 word"
type_synonym int32 = "32 word"
type_synonym int64 = "64 word"

text \<open>\<open>common.Hash\<close> is a 32-byte array; only equality of hashes is used by the worker.\<close>

type_synonym hash = nat

subsection \<open>peerSet (package eth)\<close>

text \<open>
  The three package-level error values and their messages (\<open>errors.New\<close>).
\<close>

datatype peer_error = errClosed | errAlreadyRegistered | errNotRegistered

fun Error :: "peer_error \<Rightarrow> string" where
  "Error errClosed = ''peer set is closed''"
| "Error errAlreadyRegistered = ''peer is already registered''"
| "Error errNotRegistered = ''peer is not registered''"

text \<open>
  Of a \<open>peer\<close> the set only reads the field \<open>id\<close>. The broadcast loop started by
  \<open>Register\<close>, \<open>p.close()\<close> in \<open>Unregister\<close> and \<open>p.Disconnect\<close> in \<open>Close\<close> act on the
  peer object and leave the fields of the set alone.
\<close>

record peer =
  id :: string

record peerSet =
  peers :: "string \<rightharpoonup> peer"
  closed :: bool

definition newPeerSet :: peerSet where
  "newPeerSet = \<lparr> peers = Map.empty, closed = False \<rparr>"

text \<open>Each operation runs under \<open>ps.lock\<close>, so it is one atomic step on the set.\<close>

definition Register :: "peerSet \<Rightarrow> peer \<Rightarrow> peer_error option \<times> peerSet" where
  "Register ps p =
     (if closed ps then (Some errClosed, ps)
      else if peers ps (id p) \<noteq> None then (Some errAlreadyRegistered, ps)
      else (None, ps\<lparr> peers := (peers ps)(id p \<mapsto> p) \<rparr>))"

definition Unregister :: "peerSet \<Rightarrow> string \<Rightarrow> peer_error option \<times> peerSet" where
  "Unregister ps i =
     (case peers ps i of
        None \<Rightarrow> (Some errNotRegistered, ps)
      | Some p \<Rightarrow> (None, ps\<lparr> peers := (peers ps)(i := None) \<rparr>))"

definition Close :: "peerSet \<Rightarrow> peerSet" where
  "Close ps = ps\<lparr> closed := True \<rparr>"

text \<open>A caller's view: any sequence of operations on the set.\<close>

datatype peer_op = OpRegister peer | OpUnregister string | OpClose

fun apply_peer_op :: "peerSet \<Rightarrow> peer_op \<Rightarrow> peerSet" where
  "apply_peer_op ps (OpRegister p) = snd (Register ps p)"
| "apply_peer_op ps (OpUnregister i) = snd (Unregister ps i)"
| "apply_peer_op ps OpClose = Close ps"

fun apply_peer_ops :: "peerSet \<Rightarrow> peer_op list \<Rightarrow> peerSet" where
  "apply_peer_ops ps [] = ps"
| "apply_peer_ops ps (x # xs) = apply_peer_ops (apply_peer_op ps x) xs"

subsection \<open>MakeReturnBytes (core/vm/util.go)\<close>

text \<open>
  Modelled from the spec: \<open>common.Int32ToBytes\<close>, \<open>common.Int64ToBytes\<close> and
  \<open>common.BytesToHash\<close> are not under src/. The integer conversions give the 4 and 8
  bytes of the value, most significant byte first; \<open>BytesToHash\<close> gives the 32-byte
  \<open>common.Hash\<close> that holds the argument right-aligned (an argument longer than 32 bytes
  is cropped from the left), so that the result is "a 32-byte word encoding" the value.
\<close>

definition Int32ToBytes :: "32 word \<Rightarrow> byte list" where
  "Int32ToBytes n = [ucast (drop_bit 24 n), ucast (drop_bit 16 n), ucast (drop_bit 8 n), ucast n]"

definition Int64ToBytes :: "int64 \<Rightarrow> byte list" where
  "Int64ToBytes n = [ucast (drop_bit 56 n), ucast (drop_bit 48 n), ucast (drop_bit 40 n),
     ucast (drop_bit 32 n), ucast (drop_bit 24 n), ucast (drop_bit 16 n), ucast (drop_bit 8 n), ucast n]"

definition BytesToHash :: "byte list \<Rightarrow> byte list" where
  "BytesToHash b = (let b' = (if length b > 32 then drop (length b - 32) b else b)
                    in replicate (32 - length b') 0 @ b')"

text \<open>Go's builtin \<open>copy(dst, src)\<close>: the first \<open>min (len dst) (len src)\<close> bytes are overwritten.\<close>

definition copy_bytes :: "byte list \<Rightarrow> byte list \<Rightarrow> byte list" where
  "copy_bytes dst src = take (length dst) src @ drop (length src) dst"

text \<open>
  \<open>len(ret)\<close> is a Go \<open>int\<close>; \<open>int64(len(ret))\<close> is the 64-bit word of that length.
\<close>

definition MakeReturnBytes :: "byte list \<Rightarrow> byte list" where
  "MakeReturnBytes ret =
     (let dataRealSize = length ret;
          dataRealSize = (if dataRealSize mod 32 \<noteq> 0
                          then dataRealSize + (32 - dataRealSize mod 32) else dataRealSize);
          dataByt = copy_bytes (replicate dataRealSize 0) ret;
          strHash = BytesToHash (Int32ToBytes 32);
          sizeHash = BytesToHash (Int64ToBytes (of_nat (length ret)));
          finalData = [];
          finalData = finalData @ strHash;
          finalData = finalData @ sizeHash;
          finalData = finalData @ dataByt
      in finalData)"

text \<open>
  The reader's side, to state what the output encodes: the value of a byte string read as
  a big-endian number, and the recovery of the data from the length word and the data part.
\<close>

definition be_nat :: "byte list \<Rightarrow> nat" where
  "be_nat bs = foldl (\<lambda>a b. a * 256 + unat b) 0 bs"

definition DecodeReturnBytes :: "byte list \<Rightarrow> byte list" where
  "DecodeReturnBytes out = take (be_nat (take 32 (drop 32 out))) (drop 64 out)"

subsection \<open>The sealing worker (miner/worker.go): data\<close>

type_synonym address = nat

text \<open>
  \<open>types.Header\<close>, with the fields the worker and the engine's \<open>Prepare\<close> read or write.
  \<open>Number\<close> and \<open>Time\<close> are \<open>*big.Int\<close>.
\<close>

record header =
  ParentHash :: hash
  Number :: int
  GasLimit :: uint64
  GasUsed :: uint64
  Extra :: "byte list"
  Time :: int
  Coinbase :: address
  Nonce :: "byte list"
  MixDigest :: hash

text \<open>
  A transaction as the worker sees it: its hash, the sender that \<open>types.Sender\<close> recovers,
  its nonce, its gas price (the priority) and its gas limit.
\<close>

record tx =
  txhash :: hash
  sender :: address
  nonce :: nat
  gasPrice :: nat
  txgas :: uint64

record log =
  BlockHash :: hash
  logIndex :: nat

record receipt =
  rcptGasUsed :: uint64
  Logs :: "log list"

record block =
  bheader :: header
  transactions :: "tx list"

text \<open>\<open>big.Int.Uint64\<close> of a block number: the low 64 bits of its absolute value.\<close>

definition NumberU64 :: "block \<Rightarrow> uint64" where
  "NumberU64 b = of_nat (nat \<bar>Number (bheader b)\<bar>)"

text \<open>The \<open>environment\<close> of one block-building cycle; \<open>'s\<close> is the state database.\<close>

record 's environment =
  state :: 's
  tcount :: nat
  gasPool :: "uint64 option"
  header :: header
  txs :: "tx list"
  receipts :: "receipt list"

text \<open>A sealing \<open>task\<close>; \<open>createdAt\<close> is a clock reading.\<close>

record 's task =
  t_receipts :: "receipt list"
  t_state :: 's
  t_block :: block
  t_createdAt :: int

definition commitInterruptNone :: int32 where "commitInterruptNone = 0"
definition commitInterruptNewHead :: int32 where "commitInterruptNewHead = 1"
definition commitInterruptResubmit :: int32 where "commitInterruptResubmit = 2"

definition staleThreshold :: uint64 where "staleThreshold = 7"

text \<open>
  \<open>intervalAdjust\<close> carries a \<open>float64\<close>. The worker's floating-point arithmetic is taken
  as a parameter: \<open>'f\<close> is the type of \<open>float64\<close> values and a \<open>float64_ops\<close> gives the
  conversions, the four operations, the comparison and the constants the worker uses
  (\<open>0.1\<close> for \<open>intervalAdjustRatio\<close>, \<open>0.9\<close> for the constant \<open>1 - intervalAdjustRatio\<close>,
  \<open>intervalAdjustBias\<close>).
\<close>

record 'f intervalAdjust =
  ratio :: 'f
  inc :: bool

record 'f float64_ops =
  f_zero :: 'f
  f_lit_0_1 :: 'f
  f_lit_0_9 :: 'f
  f_lit_bias :: 'f
  f_of_uint64 :: "uint64 \<Rightarrow> 'f"
  f_of_int64 :: "int64 \<Rightarrow> 'f"
  f_to_int64 :: "'f \<Rightarrow> int64"
  f_add :: "'f \<Rightarrow> 'f \<Rightarrow> 'f"
  f_sub :: "'f \<Rightarrow> 'f \<Rightarrow> 'f"
  f_mul :: "'f \<Rightarrow> 'f \<Rightarrow> 'f"
  f_div :: "'f \<Rightarrow> 'f \<Rightarrow> 'f"
  f_less :: "'f \<Rightarrow> 'f \<Rightarrow> bool"

text \<open>Exact rational arithmetic is one such structure; the examples run on it.\<close>

definition exact_ops :: "rat float64_ops" where
  "exact_ops = \<lparr> f_zero = 0, f_lit_0_1 = 1 / 10, f_lit_0_9 = 9 / 10, f_lit_bias = 200000000,
     f_of_uint64 = (\<lambda>w. of_nat (unat w)), f_of_int64 = (\<lambda>w. of_int (sint w)),
     f_to_int64 = (\<lambda>x. of_int (if 0 \<le> x then \<lfloor>x\<rfloor> else \<lceil>x\<rceil>)),
     f_add = (+), f_sub = (-), f_mul = (*), f_div = (/), f_less = (<) \<rparr>"

subsection \<open>The pending transactions of one cycle\<close>

text \<open>
  Modelled from the spec: \<open>types.TransactionsByPriceAndNonce\<close> (core/types) is not under
  src/. The spec has the pool hand over "per-account transaction lists" that are executed
  "in priority+nonce order", \<open>Shift\<close> "advance within account queue" and \<open>Pop\<close> "drop
  entire account's remaining queue"; worker.go itself says of \<open>Pop\<close> that it removes the
  current transaction "without shifting in the next from the account". So the set is a
  list of account queues, each the account's head transaction with the rest of its
  nonce-ordered list, kept in the order of the heads' prices: \<open>Peek\<close> is the best head,
  \<open>Shift\<close> replaces it by the next transaction of the same account (the account leaves the
  set when it has none), \<open>Pop\<close> removes the head's whole queue.
\<close>

type_synonym TransactionsByPriceAndNonce = "(tx \<times> tx list) list"

fun heap_push :: "tx \<times> tx list \<Rightarrow> TransactionsByPriceAndNonce \<Rightarrow> TransactionsByPriceAndNonce" where
  "heap_push x [] = [x]"
| "heap_push x (y # ys) =
     (if gasPrice (fst y) < gasPrice (fst x) then x # y # ys else y # heap_push x ys)"

definition Peek :: "TransactionsByPriceAndNonce \<Rightarrow> tx option" where
  "Peek t = (case t of [] \<Rightarrow> None | (h, _) # _ \<Rightarrow> Some h)"

definition Shift :: "TransactionsByPriceAndNonce \<Rightarrow> TransactionsByPriceAndNonce" where
  "Shift t = (case t of [] \<Rightarrow> []
              | (h, rest) # others \<Rightarrow>
                  (case rest of [] \<Rightarrow> others | n # rest' \<Rightarrow> heap_push (n, rest') others))"

definition Pop :: "TransactionsByPriceAndNonce \<Rightarrow> TransactionsByPriceAndNonce" where
  "Pop t = (case t of [] \<Rightarrow> [] | _ # others \<Rightarrow> others)"

text \<open>The transactions still in the set, and the number of them.\<close>

definition queued :: "TransactionsByPriceAndNonce \<Rightarrow> tx set" where
  "queued t = (\<Union>(h, rest) \<in> set t. insert h (set rest))"

definition txs_left :: "TransactionsByPriceAndNonce \<Rightarrow> nat" where
  "txs_left t = sum_list (map (\<lambda>(h, rest). Suc (length rest)) t)"

text \<open>
  What the pool guarantees of a set built from its map of accounts: one queue per account,
  and every transaction of a queue is from that account.
\<close>

definition wf_txset :: "TransactionsByPriceAndNonce \<Rightarrow> bool" where
  "wf_txset t \<longleftrightarrow> distinct (map (\<lambda>(h, rest). sender h) t)
                  \<and> (\<forall>(h, rest) \<in> set t. \<forall>x \<in> set rest. sender x = sender h)"

subsection \<open>commitTransaction\<close>

text \<open>
  The errors of \<open>core.ApplyTransaction\<close> that the worker tells apart, and any other one.
\<close>

datatype exec_error = ErrGasLimitReached | ErrNonceTooLow | ErrNonceTooHigh | ErrOther nat

text \<open>
  \<open>core.ApplyTransaction\<close>, \<open>StateDB.Prepare\<close> and \<open>params.TxGas\<close> are parameters.
  \<open>ApplyTransaction\<close> is given the gas pool, the state and the header by pointer: its
  result holds the error, the receipt and the values it leaves in the state, in the pool
  and in \<open>header.GasUsed\<close>.
\<close>

record 's apply_result =
  ar_err :: "exec_error option"
  ar_receipt :: receipt
  ar_state :: 's
  ar_gas :: uint64
  ar_gasUsed :: uint64

record 's externals =
  ApplyTransaction :: "address \<Rightarrow> uint64 option \<Rightarrow> 's \<Rightarrow> header \<Rightarrow> tx \<Rightarrow> 's apply_result"
  StatePrepare :: "'s \<Rightarrow> hash \<Rightarrow> nat \<Rightarrow> 's"
  TxGas :: uint64

text \<open>
  On an error the state is reverted to the snapshot taken on entry; otherwise the
  transaction and its receipt are appended to the environment.
\<close>

definition commitTransaction ::
  "'s externals \<Rightarrow> 's environment \<Rightarrow> tx \<Rightarrow> address \<Rightarrow> (log list \<times> exec_error option) \<times> 's environment" where
  "commitTransaction ext env tx coinbase =
     (let snap = state env;
          r = ApplyTransaction ext coinbase (gasPool env) (state env) (header env) tx;
          env = env\<lparr> gasPool := map_option (\<lambda>_. ar_gas r) (gasPool env),
                      header := (header env)\<lparr> GasUsed := ar_gasUsed r \<rparr> \<rparr>
      in case ar_err r of
           Some err \<Rightarrow> (([], Some err), env\<lparr> state := snap \<rparr>)
         | None \<Rightarrow> ((Logs (ar_receipt r), None),
                     env\<lparr> state := ar_state r,
                          txs := txs env @ [tx],
                          receipts := receipts env @ [ar_receipt r] \<rparr>))"

subsection \<open>commitTransactionsWithHeader\<close>

text \<open>
  The state of the loop: the current environment, the pending set, the collected logs,
  the messages sent on \<open>resubmitAdjustCh\<close>, and two observations of the run: \<open>loads\<close>
  counts the atomic loads of the interrupt flag made so far, \<open>applied\<close> lists the calls of
  \<open>commitTransaction\<close> in order, each with its error.

  The interrupt flag is shared with \<open>newWorkLoop\<close>, which stores into it while the loop
  runs: \<open>interrupt\<close> is \<open>None\<close> for a nil pointer and otherwise gives the value that the
  \<open>k\<close>-th load of this call finds. The \<open>header\<close> argument of the Go function is only
  written to the log, as are the calls of \<open>rpc.MonitorWriteData\<close>.
\<close>

datatype event =
    PendingLogsEvent "log list"
  | NewMinedBlockEvent block
  | ChainEvent block hash "log list"
  | ChainHeadEvent block
  | ChainSideEvent block

record ('s, 'f) cstate =
  current :: "'s environment"
  pending :: TransactionsByPriceAndNonce
  coalescedLogs :: "log list"
  loads :: nat
  resubmitAdjustCh :: "'f intervalAdjust list"
  applied :: "(tx \<times> exec_error option) list"

text \<open>
  One pass through the body of the \<open>for\<close> loop ends in \<open>return\<close>, in \<open>break\<close>, at the end
  of the body, or in a nil-pointer panic when the gas pool is nil.
\<close>

datatype ('s, 'f) step = Return bool "('s, 'f) cstate" | Break "('s, 'f) cstate"
  | Continue "('s, 'f) cstate" | NilDereference

definition LoadInt32 :: "(nat \<Rightarrow> int32) \<Rightarrow> ('s, 'f) cstate \<Rightarrow> int32 \<times> ('s, 'f) cstate" where
  "LoadInt32 flag s = (flag (loads s), s\<lparr> loads := Suc (loads s) \<rparr>)"

text \<open>
  \<open>ratio := float64(GasLimit - gasPool.Gas()) / float64(GasLimit)\<close>, raised to \<open>0.1\<close> when
  it is less; the subtraction is \<open>uint64\<close>.
\<close>

definition resubmitRatio :: "'f float64_ops \<Rightarrow> uint64 \<Rightarrow> uint64 \<Rightarrow> 'f" where
  "resubmitRatio fl limit gas =
     (let ratio = f_div fl (f_of_uint64 fl (limit - gas)) (f_of_uint64 fl limit)
      in if f_less fl ratio (f_lit_0_1 fl) then f_lit_0_1 fl else ratio)"

text \<open>
  The branch taken when the first load found a value other than \<open>commitInterruptNone\<close>:
  a second load decides whether the adjustment is sent, a third one the result.
\<close>

definition interrupted :: "'f float64_ops \<Rightarrow> (nat \<Rightarrow> int32) \<Rightarrow> ('s, 'f) cstate \<Rightarrow> ('s, 'f) step" where
  "interrupted fl flag s =
     (let (v, s) = LoadInt32 flag s in
      if v = commitInterruptResubmit then
        (case gasPool (current s) of
           None \<Rightarrow> NilDereference
         | Some gas \<Rightarrow>
             (let adj = \<lparr> ratio = resubmitRatio fl (GasLimit (header (current s))) gas, inc = True \<rparr>;
                  s = s\<lparr> resubmitAdjustCh := resubmitAdjustCh s @ [adj] \<rparr>;
                  (v, s) = LoadInt32 flag s
              in Return (v = commitInterruptNewHead) s))
      else (let (v, s) = LoadInt32 flag s in Return (v = commitInterruptNewHead) s))"

text \<open>
  Executing the transaction at the head of the set, and the \<open>switch\<close> on its error.
\<close>

definition execute :: "'s externals \<Rightarrow> address \<Rightarrow> ('s, 'f) cstate \<Rightarrow> tx \<Rightarrow> ('s, 'f) cstate" where
  "execute ext coinbase s tx =
     (let env = current s;
          env = env\<lparr> state := StatePrepare ext (state env) (txhash tx) (tcount env) \<rparr>;
          ((logs, err), env) = commitTransaction ext env tx coinbase;
          s = s\<lparr> current := env, applied := applied s @ [(tx, err)] \<rparr>
      in case err of
           Some ErrGasLimitReached \<Rightarrow> s\<lparr> pending := Pop (pending s) \<rparr>
         | Some ErrNonceTooLow \<Rightarrow> s\<lparr> pending := Shift (pending s) \<rparr>
         | Some ErrNonceTooHigh \<Rightarrow> s\<lparr> pending := Pop (pending s) \<rparr>
         | None \<Rightarrow> s\<lparr> coalescedLogs := coalescedLogs s @ logs,
                        current := env\<lparr> tcount := Suc (tcount env) \<rparr>,
                        pending := Shift (pending s) \<rparr>
         | Some (ErrOther _) \<Rightarrow> s\<lparr> pending := Shift (pending s) \<rparr>)"

definition nextTransaction :: "'s externals \<Rightarrow> address \<Rightarrow> ('s, 'f) cstate \<Rightarrow> ('s, 'f) step" where
  "nextTransaction ext coinbase s =
     (case gasPool (current s) of
        None \<Rightarrow> NilDereference
      | Some gas \<Rightarrow>
          if gas < TxGas ext then Break s
          else (case Peek (pending s) of
                  None \<Rightarrow> Break s
                | Some tx \<Rightarrow> Continue (execute ext coinbase s tx)))"

definition commitStep ::
  "'s externals \<Rightarrow> 'f float64_ops \<Rightarrow> (nat \<Rightarrow> int32) option \<Rightarrow> address \<Rightarrow> ('s, 'f) cstate \<Rightarrow> ('s, 'f) step" where
  "commitStep ext fl interrupt coinbase s =
     (case interrupt of
        None \<Rightarrow> nextTransaction ext coinbase s
      | Some flag \<Rightarrow>
          (let (v, s') = LoadInt32 flag s
           in if v \<noteq> commitInterruptNone then interrupted fl flag s'
              else nextTransaction ext coinbase s'))"

text \<open>
  Every pass that reaches the end of the body has taken a transaction out of the set, so
  the loop ends.
\<close>

lemma txs_left_heap_push: "txs_left (heap_push x t) = Suc (length (snd x)) + txs_left t"
  by (induction t) (auto simp: txs_left_def split: prod.splits)

lemma txs_left_Pop: "t \<noteq> [] \<Longrightarrow> txs_left (Pop t) < txs_left t"
  by (cases t) (auto simp: txs_left_def Pop_def)

lemma txs_left_Shift: "t \<noteq> [] \<Longrightarrow> txs_left (Shift t) < txs_left t"
  by (cases t) (auto simp: Shift_def txs_left_heap_push split: list.splits, auto simp: txs_left_def)

lemma Peek_Some_nonempty: "Peek t = Some x \<Longrightarrow> t \<noteq> []"
  by (auto simp: Peek_def)

lemma pending_execute:
  "pending (execute ext coinbase s tx) = Pop (pending s) \<or> pending (execute ext coinbase s tx) = Shift (pending s)"
  by (auto simp: execute_def Let_def split: prod.splits option.splits exec_error.splits)

lemma nextTransaction_Continue:
  assumes "nextTransaction ext coinbase s = Continue s'"
  shows "txs_left (pending s') < txs_left (pending s)"
proof -
  from assms obtain tx where p: "Peek (pending s) = Some tx" and s': "s' = execute ext coinbase s tx"
    by (auto simp: nextTransaction_def split: option.splits if_splits)
  from p have "pending s \<noteq> []" by (rule Peek_Some_nonempty)
  then show ?thesis
    using pending_execute [of ext coinbase s tx] txs_left_Pop txs_left_Shift
    unfolding s' by metis
qed

lemma interrupted_not_Continue: "interrupted fl flag s \<noteq> Continue s'"
  by (auto simp: interrupted_def LoadInt32_def Let_def split: option.splits)

lemma commitStep_Continue:
  assumes "commitStep ext fl interrupt coinbase s = Continue s'"
  shows "txs_left (pending s') < txs_left (pending s)"
proof (cases interrupt)
  case None
  with assms show ?thesis by (simp add: commitStep_def nextTransaction_Continue)
next
  case (Some flag)
  with assms have "nextTransaction ext coinbase (s\<lparr> loads := Suc (loads s) \<rparr>) = Continue s'"
    by (auto simp: commitStep_def LoadInt32_def interrupted_not_Continue split: if_splits)
  from nextTransaction_Continue [OF this] show ?thesis by simp
qed

function commitLoop ::
  "'s externals \<Rightarrow> 'f float64_ops \<Rightarrow> (nat \<Rightarrow> int32) option \<Rightarrow> address \<Rightarrow> ('s, 'f) cstate \<Rightarrow> ('s, 'f) step" where
  "commitLoop ext fl interrupt coinbase s =
     (case commitStep ext fl interrupt coinbase s of
        Continue s' \<Rightarrow> commitLoop ext fl interrupt coinbase s'
      | r \<Rightarrow> r)"
  by pat_completeness auto
termination
  by (relation "measure (\<lambda>(ext, fl, interrupt, coinbase, s). txs_left (pending s))")
     (auto dest: commitStep_Continue)

declare commitLoop.simps [simp del]

text \<open>The state in which the loop stops, when it does not panic.\<close>

fun final :: "('s, 'f) step \<Rightarrow> ('s, 'f) cstate option" where
  "final (Return b s) = Some s"
| "final (Break s) = Some s"
| "final (Continue s) = None"
| "final NilDereference = None"

text \<open>
  The states at the head of the loop that a cycle passes through.
\<close>

inductive reaches ::
  "'s externals \<Rightarrow> 'f float64_ops \<Rightarrow> (nat \<Rightarrow> int32) option \<Rightarrow> address \<Rightarrow> ('s, 'f) cstate \<Rightarrow> ('s, 'f) cstate \<Rightarrow> bool"
  for ext fl interrupt coinbase where
    reaches_refl: "reaches ext fl interrupt coinbase s s"
  | reaches_step: "commitStep ext fl interrupt coinbase s = Continue s' \<Longrightarrow>
       reaches ext fl interrupt coinbase s' s'' \<Longrightarrow> reaches ext fl interrupt coinbase s s''"

text \<open>
  The result of the function: \<open>true\<close> at once when there is no current environment
  (\<open>CurrentNil\<close>), otherwise the boolean, the final state and the events posted.
  \<open>new(core.GasPool).AddGas(limit)\<close> is a pool of \<open>limit\<close>: \<open>AddGas\<close> panics when the sum
  passes \<open>math.MaxUint64\<close>, which a pool of 0 cannot.
\<close>

datatype ('s, 'f) commit_result =
    CurrentNil
  | Finished bool "('s, 'f) cstate" "event list"
  | Panicked

fun returned :: "('s, 'f) commit_result \<Rightarrow> bool option" where
  "returned CurrentNil = Some True"
| "returned (Finished b s evs) = Some b"
| "returned Panicked = None"

fun outcome ::
  "('s, 'f) commit_result \<Rightarrow> bool option \<times> (tx \<times> exec_error option) list \<times> TransactionsByPriceAndNonce" where
  "outcome (Finished b s evs) = (Some b, applied s, pending s)"
| "outcome CurrentNil = (Some True, [], [])"
| "outcome Panicked = (None, [], [])"

definition AddGas :: "uint64 \<Rightarrow> uint64 \<Rightarrow> uint64 option" where
  "AddGas gp amount = (if gp > - 1 - amount then None else Some (gp + amount))"

definition entryState ::
  "'f intervalAdjust list \<Rightarrow> 's environment \<Rightarrow> TransactionsByPriceAndNonce \<Rightarrow> ('s, 'f) cstate" where
  "entryState ch env txset =
     \<lparr> current = (if gasPool env = None then env\<lparr> gasPool := AddGas 0 (GasLimit (header env)) \<rparr> else env),
       pending = txset, coalescedLogs = [], loads = 0, resubmitAdjustCh = ch, applied = [] \<rparr>"

text \<open>
  After the loop: the pending logs are posted (a copy of them) when the worker is not
  running, and the decrease signal is sent when there is an interrupt pointer.
\<close>

definition afterLoop ::
  "'f float64_ops \<Rightarrow> bool \<Rightarrow> (nat \<Rightarrow> int32) option \<Rightarrow> ('s, 'f) cstate \<Rightarrow> ('s, 'f) commit_result" where
  "afterLoop fl running interrupt s =
     (let evs = (if \<not> running \<and> length (coalescedLogs s) > 0
                 then [PendingLogsEvent (coalescedLogs s)] else []);
          s = (if interrupt \<noteq> None
               then s\<lparr> resubmitAdjustCh := resubmitAdjustCh s @ [\<lparr> ratio = f_zero fl, inc = False \<rparr>] \<rparr>
               else s)
      in Finished False s evs)"

definition commitTransactionsWithHeader ::
  "'s externals \<Rightarrow> 'f float64_ops \<Rightarrow> bool \<Rightarrow> 'f intervalAdjust list \<Rightarrow> 's environment option
     \<Rightarrow> TransactionsByPriceAndNonce \<Rightarrow> address \<Rightarrow> (nat \<Rightarrow> int32) option \<Rightarrow> ('s, 'f) commit_result" where
  "commitTransactionsWithHeader ext fl running ch cur txset coinbase interrupt =
     (case cur of
        None \<Rightarrow> CurrentNil
      | Some env \<Rightarrow>
          (case commitLoop ext fl interrupt coinbase (entryState ch env txset) of
             Return b s' \<Rightarrow> Finished b s' []
           | Break s' \<Rightarrow> afterLoop fl running interrupt s'
           | Continue s' \<Rightarrow> Panicked
           | NilDereference \<Rightarrow> Panicked))"

subsection \<open>A small executor for the examples\<close>

text \<open>
  The examples run the loop on an executor that checks the nonce against the sender's
  account, then buys the transaction's gas from the pool, as the state transition behind
  \<open>core.ApplyTransaction\<close> does. The state is the accounts' nonces.
\<close>

definition simple_ApplyTransaction ::
  "address \<Rightarrow> uint64 option \<Rightarrow> (address \<Rightarrow> nat) \<Rightarrow> header \<Rightarrow> tx \<Rightarrow> (address \<Rightarrow> nat) apply_result" where
  "simple_ApplyTransaction coinbase gp st hdr t =
     (let pool = (case gp of None \<Rightarrow> 0 | Some g \<Rightarrow> g);
          failed = (\<lambda>e. \<lparr> ar_err = Some e, ar_receipt = \<lparr> rcptGasUsed = 0, Logs = [] \<rparr>,
                           ar_state = st, ar_gas = pool, ar_gasUsed = GasUsed hdr \<rparr>)
      in if nonce t < st (sender t) then failed ErrNonceTooLow
         else if st (sender t) < nonce t then failed ErrNonceTooHigh
         else if pool < txgas t then failed ErrGasLimitReached
         else \<lparr> ar_err = None,
                ar_receipt = \<lparr> rcptGasUsed = txgas t, Logs = [\<lparr> BlockHash = 0, logIndex = txhash t \<rparr>] \<rparr>,
                ar_state = st(sender t := Suc (nonce t)),
                ar_gas = pool - txgas t,
                ar_gasUsed = GasUsed hdr + txgas t \<rparr>)"

definition simple_ext :: "(address \<Rightarrow> nat) externals" where
  "simple_ext = \<lparr> ApplyTransaction = simple_ApplyTransaction,
                   StatePrepare = (\<lambda>st h i. st), TxGas = 21000 \<rparr>"

definition simple_env :: "(address \<Rightarrow> nat) \<Rightarrow> (address \<Rightarrow> nat) environment" where
  "simple_env st = \<lparr> state = st, tcount = 0, gasPool = None,
     header = \<lparr> ParentHash = 7, Number = 8, GasLimit = 100000, GasUsed = 0, Extra = [],
                Time = 1000, Coinbase = 0, Nonce = [], MixDigest = 0 \<rparr>,
     txs = [], receipts = [] \<rparr>"

definition mk_tx :: "hash \<Rightarrow> address \<Rightarrow> nat \<Rightarrow> nat \<Rightarrow> uint64 \<Rightarrow> tx" where
  "mk_tx h a n p g = \<lparr> txhash = h, sender = a, nonce = n, gasPrice = p, txgas = g \<rparr>"

text \<open>
  Transactions of account 1 (nonces 0, 1, 5 and 6, and one that asks for more gas than a
  block has) and of account 2.
\<close>

definition tx_a0 :: tx where "tx_a0 = mk_tx 10 1 0 9 30000"
definition tx_a1 :: tx where "tx_a1 = mk_tx 11 1 1 9 30000"
definition tx_a5 :: tx where "tx_a5 = mk_tx 15 1 5 9 30000"
definition tx_a6 :: tx where "tx_a6 = mk_tx 16 1 6 9 30000"
definition tx_a_big :: tx where "tx_a_big = mk_tx 17 1 0 9 200000"
definition tx_b0 :: tx where "tx_b0 = mk_tx 20 2 0 5 30000"

lemmas demo_defs = commitStep_def nextTransaction_def execute_def commitTransaction_def
      entryState_def simple_env_def simple_ext_def simple_ApplyTransaction_def mk_tx_def AddGas_def
      Peek_def Pop_def Shift_def Let_def LoadInt32_def interrupted_def
      tx_a0_def tx_a1_def tx_a5_def tx_a6_def tx_a_big_def tx_b0_def
      commitInterruptNone_def commitInterruptNewHead_def commitInterruptResubmit_def

text \<open>The set after a pass, by the error of the transaction executed.\<close>

definition advance :: "exec_error option \<Rightarrow> TransactionsByPriceAndNonce \<Rightarrow> TransactionsByPriceAndNonce" where
  "advance err t = (if err = Some ErrGasLimitReached \<or> err = Some ErrNonceTooHigh then Pop t else Shift t)"

section \<open>Properties\<close>

subsection \<open>peerSet: error results\<close>

lemma closed_apply_peer_op: "closed ps \<Longrightarrow> closed (apply_peer_op ps x)"
  by (cases x) (auto simp: Register_def Unregister_def Close_def split: option.splits)

lemma closed_apply_peer_ops: "closed ps \<Longrightarrow> closed (apply_peer_ops ps xs)"
  by (induction xs arbitrary: ps) (simp_all add: closed_apply_peer_op)

text \<open>
  C9, as stated, at a set that is closed and already holds the peer: \<open>Register\<close> tests
  \<open>ps.closed\<close> first, so the error is "peer set is closed", not "peer is already
  registered".
\<close>

theorem C9_register_closed_first:
  "fst (Register \<lparr> peers = [''a'' \<mapsto> \<lparr> id = ''a'' \<rparr>], closed = True \<rparr> \<lparr> id = ''a'' \<rparr>)
     \<noteq> Some errAlreadyRegistered
   \<and> peers \<lparr> peers = [''a'' \<mapsto> \<lparr> id = ''a'' \<rparr>], closed = True \<rparr> (id \<lparr> id = ''a'' \<rparr>) \<noteq> None"
  by (simp add: Register_def)

text \<open>
  C9 (amended): \<open>Register\<close> returns "peer set is closed" whenever the set is closed, in
  particular after \<open>Close\<close> and any further operations, and "peer is already registered"
  when the set is not closed and holds a peer with the same id; \<open>Unregister\<close> returns "peer
  is not registered" when no peer has the id. In each error case the set, with its map of
  peers, is returned unchanged. \<open>Close\<close> itself leaves the map unchanged.
\<close>

theorem C9_peerSet_errors:
  "(closed ps \<longrightarrow> Register ps p = (Some errClosed, ps))
   \<and> (\<not> closed ps \<and> peers ps (id p) \<noteq> None \<longrightarrow> Register ps p = (Some errAlreadyRegistered, ps))
   \<and> Register (apply_peer_ops (Close ps) ops) p = (Some errClosed, apply_peer_ops (Close ps) ops)
   \<and> (peers ps i = None \<longrightarrow> Unregister ps i = (Some errNotRegistered, ps))
   \<and> peers (Close ps) = peers ps
   \<and> Error errClosed = ''peer set is closed''
   \<and> Error errAlreadyRegistered = ''peer is already registered''
   \<and> Error errNotRegistered = ''peer is not registered''"
proof -
  have "closed (apply_peer_ops (Close ps) ops)"
    by (rule closed_apply_peer_ops) (simp add: Close_def)
  then show ?thesis
    by (simp add: Register_def Unregister_def Close_def)
qed

theorem C9_peerSet_errors_witness:
  "Register \<lparr> peers = [''a'' \<mapsto> \<lparr> id = ''a'' \<rparr>], closed = False \<rparr> \<lparr> id = ''a'' \<rparr>
     = (Some errAlreadyRegistered, \<lparr> peers = [''a'' \<mapsto> \<lparr> id = ''a'' \<rparr>], closed = False \<rparr>)
   \<and> Register (Close newPeerSet) \<lparr> id = ''b'' \<rparr> = (Some errClosed, Close newPeerSet)
   \<and> Unregister newPeerSet ''c'' = (Some errNotRegistered, newPeerSet)"
  using C9_peerSet_errors [of "\<lparr> peers = [''a'' \<mapsto> \<lparr> id = ''a'' \<rparr>], closed = False \<rparr>" "\<lparr> id = ''a'' \<rparr>" "[]" "''zz''"]
    C9_peerSet_errors [of "Close newPeerSet" "\<lparr> id = ''b'' \<rparr>" "[]" "''c''"]
    C9_peerSet_errors [of "newPeerSet" "\<lparr> id = ''b'' \<rparr>" "[]" "''c''"]
  by (simp add: newPeerSet_def Close_def)

subsection \<open>MakeReturnBytes: layout, length and recovery\<close>

lemma be_nat_append: "be_nat (xs @ ys) = be_nat xs * 256 ^ length ys + be_nat ys"
  unfolding be_nat_def
proof (induction ys rule: rev_induct)
  case Nil
  then show ?case by simp
next
  case (snoc y ys)
  then show ?case by (simp add: algebra_simps flip: append_assoc)
qed

lemma be_nat_zeros: "be_nat (replicate k 0) = 0"
  unfolding be_nat_def by (induction k) (simp_all add: replicate_append_same)

lemma unat_byte: "unat (ucast (v :: 'a::len word) :: byte) = unat v mod 256"
proof -
  have "unat (ucast v :: byte) = take_bit LENGTH(8) (unat v)"
    by (rule unsigned_ucast_eq)
  then show ?thesis by (simp add: take_bit_eq_mod)
qed

lemma unat_drop: "unat (drop_bit k (w :: 'a::len word)) = unat w div 2 ^ k"
  unfolding unat_drop_bit_eq by (rule drop_bit_eq_div)

lemma digits_sum:
  fixes n :: nat
  assumes "q6 = a6 + 256 * a7" "q5 = a5 + 256 * q6" "q4 = a4 + 256 * q5" "q3 = a3 + 256 * q4"
    "q2 = a2 + 256 * q3" "q1 = a1 + 256 * q2" "n = a0 + 256 * q1"
  shows "((((((a7 * 256 + a6) * 256 + a5) * 256 + a4) * 256 + a3) * 256 + a2) * 256 + a1) * 256 + a0 = n"
  using assms by simp

lemma bytes_sum:
  assumes "(n::nat) < 2 ^ 64"
  shows "((((((n div 2 ^ 56 mod 256 * 256 + n div 2 ^ 48 mod 256) * 256 + n div 2 ^ 40 mod 256) * 256
      + n div 2 ^ 32 mod 256) * 256 + n div 2 ^ 24 mod 256) * 256 + n div 2 ^ 16 mod 256) * 256
      + n div 2 ^ 8 mod 256) * 256 + n mod 256 = n"
proof -
  have s: "n div 2 ^ k = n div 2 ^ k mod 256 + 256 * (n div 2 ^ (k + 8))" for k
  proof -
    have "n div 2 ^ (k + 8) = n div 2 ^ k div 256"
      by (simp add: power_add div_mult2_eq)
    then show ?thesis by simp
  qed
  have "n div 2 ^ 56 < 256" using assms by (simp add: less_mult_imp_div_less)
  then have e7: "n div 2 ^ 56 mod 256 = n div 2 ^ 56" by simp
  have f6: "n div 2 ^ 48 = n div 2 ^ 48 mod 256 + 256 * (n div 2 ^ 56)" using s [of 48] by simp
  have f5: "n div 2 ^ 40 = n div 2 ^ 40 mod 256 + 256 * (n div 2 ^ 48)" using s [of 40] by simp
  have f4: "n div 2 ^ 32 = n div 2 ^ 32 mod 256 + 256 * (n div 2 ^ 40)" using s [of 32] by simp
  have f3: "n div 2 ^ 24 = n div 2 ^ 24 mod 256 + 256 * (n div 2 ^ 32)" using s [of 24] by simp
  have f2: "n div 2 ^ 16 = n div 2 ^ 16 mod 256 + 256 * (n div 2 ^ 24)" using s [of 16] by simp
  have f1: "n div 2 ^ 8 = n div 2 ^ 8 mod 256 + 256 * (n div 2 ^ 16)" using s [of 8] by simp
  have f0: "n = n mod 256 + 256 * (n div 2 ^ 8)" using s [of 0] by simp
  show ?thesis
    unfolding e7 by (rule digits_sum [OF f6 f5 f4 f3 f2 f1 f0])
qed

lemma be_nat_Int64: "be_nat (Int64ToBytes w) = unat w"
proof -
  have "unat w < 2 ^ 64" using unsigned_less [of w, where 'a=nat] by simp
  then show ?thesis
    unfolding Int64ToBytes_def be_nat_def
    by (simp only: foldl.simps unat_byte unat_drop bytes_sum mult_0 add_0)
qed

lemma be_nat_Int32_32: "be_nat (Int32ToBytes 32) = 32"
  by (simp add: Int32ToBytes_def be_nat_def)

lemma length_BytesToHash: "length (BytesToHash b) = 32"
  by (simp add: BytesToHash_def Let_def)

lemma be_nat_BytesToHash: "length b \<le> 32 \<Longrightarrow> be_nat (BytesToHash b) = be_nat b"
  by (simp add: BytesToHash_def be_nat_append be_nat_zeros)

lemma copy_bytes_zeros:
  "length ret \<le> n \<Longrightarrow> copy_bytes (replicate n 0) ret = ret @ replicate (n - length ret) 0"
  by (simp add: copy_bytes_def)

lemma MakeReturnBytes_parts:
  "MakeReturnBytes ret = BytesToHash (Int32ToBytes 32) @ BytesToHash (Int64ToBytes (of_nat (length ret)))
      @ ret @ replicate ((32 - length ret mod 32) mod 32) 0"
  by (simp add: MakeReturnBytes_def Let_def copy_bytes_zeros)

lemma pad_len: "(n::nat) + (32 - n mod 32) mod 32 = 32 * ((n + 31) div 32)"
proof -
  define q r where "q = n div 32" and "r = n mod 32"
  have n: "n = r + q * 32" and r: "r < 32" by (simp_all add: q_def r_def)
  have m: "n mod 32 = r" by (simp add: r_def)
  show ?thesis
  proof (cases "r = 0")
    case True
    have "(n + 31) div 32 = q" unfolding n True by (simp only: add_0 div_mult_self3)
    then show ?thesis unfolding m True using n True by simp
  next
    case False
    have a: "(n + 31) div 32 = (r + 31) div 32 + q"
      unfolding n by (simp only: add.assoc add.commute [of "q * 32" 31] flip: add.assoc)
    have b: "(r + 31) div 32 = 1"
      by (rule div_nat_eqI) (use r False in simp_all)
    have c: "(32 - r) mod 32 = 32 - r" using False by (intro mod_less) simp
    have "n + (32 - r) = 32 * (1 + q)" using n r by simp
    then show ?thesis unfolding m c a b by simp
  qed
qed

lemma MakeReturnBytes_example:
  "MakeReturnBytes [1, 2, 3] = replicate 31 0 @ [32] @ replicate 31 0 @ [3] @ [1, 2, 3] @ replicate 29 0"
  by code_simp

text \<open>
  C10: for every byte string \<open>ret\<close> (a Go slice: its length is an \<open>int\<close>, below \<open>2^63\<close>),
  \<open>MakeReturnBytes ret\<close> is a 32-byte word with value 32, then a 32-byte word with value
  \<open>len(ret)\<close>, then \<open>ret\<close> padded with zero bytes to the next multiple of 32; its length is
  \<open>64 + 32 * ceil(len(ret) / 32)\<close>, and \<open>ret\<close> is the data part cut at the value of the
  length word.
\<close>

theorem C10_MakeReturnBytes:
  assumes "length ret < 2 ^ 63"
  shows "length (take 32 (MakeReturnBytes ret)) = 32
       \<and> be_nat (take 32 (MakeReturnBytes ret)) = 32
       \<and> length (take 32 (drop 32 (MakeReturnBytes ret))) = 32
       \<and> be_nat (take 32 (drop 32 (MakeReturnBytes ret))) = length ret
       \<and> drop 64 (MakeReturnBytes ret) = ret @ replicate ((32 - length ret mod 32) mod 32) 0
       \<and> length (MakeReturnBytes ret) = 64 + 32 * ((length ret + 31) div 32)
       \<and> DecodeReturnBytes (MakeReturnBytes ret) = ret"
proof -
  let ?s = "BytesToHash (Int32ToBytes 32)"
  let ?z = "BytesToHash (Int64ToBytes (of_nat (length ret)))"
  let ?d = "ret @ replicate ((32 - length ret mod 32) mod 32) 0"
  have out: "MakeReturnBytes ret = ?s @ ?z @ ?d" by (rule MakeReturnBytes_parts)
  have ls: "length ?s = 32" and lz: "length ?z = 32" by (rule length_BytesToHash)+
  have t1: "take 32 (MakeReturnBytes ret) = ?s" unfolding out using ls by simp
  have t2: "take 32 (drop 32 (MakeReturnBytes ret)) = ?z" unfolding out using ls lz by simp
  have t3: "drop 64 (MakeReturnBytes ret) = ?d" unfolding out using ls lz by simp
  have "length (Int32ToBytes 32) \<le> 32" by (simp add: Int32ToBytes_def)
  then have b1: "be_nat ?s = 32"
    by (simp only: be_nat_BytesToHash be_nat_Int32_32)
  have "unat (of_nat (length ret) :: 64 word) = length ret"
    using assms by (simp add: unat_of_nat)
  moreover have "length (Int64ToBytes (of_nat (length ret))) \<le> 32"
    by (simp add: Int64ToBytes_def)
  ultimately have b2: "be_nat ?z = length ret"
    by (simp only: be_nat_BytesToHash be_nat_Int64)
  have len: "length (MakeReturnBytes ret) = 64 + 32 * ((length ret + 31) div 32)"
    unfolding out using ls lz pad_len [of "length ret"] by simp
  have dec: "DecodeReturnBytes (MakeReturnBytes ret) = ret"
    unfolding DecodeReturnBytes_def t2 t3 b2 by simp
  show ?thesis
    unfolding t1 t2 t3 using ls lz b1 b2 len dec by simp
qed

theorem C10_MakeReturnBytes_witness:
  "length [1, 2, 3 :: byte] < 2 ^ 63
   \<and> be_nat (take 32 (MakeReturnBytes [1, 2, 3])) = 32
   \<and> be_nat (take 32 (drop 32 (MakeReturnBytes [1, 2, 3]))) = 3
   \<and> drop 64 (MakeReturnBytes [1, 2, 3]) = [1, 2, 3] @ replicate 29 0
   \<and> length (MakeReturnBytes [1, 2, 3]) = 96
   \<and> DecodeReturnBytes (MakeReturnBytes [1, 2, 3]) = [1, 2, 3]"
  using C10_MakeReturnBytes [of "[1, 2, 3]"] by simp

subsection \<open>commitTransactionsWithHeader: the loop\<close>

lemma commitLoop_reaches:
  "reaches ext fl interrupt coinbase s s' \<Longrightarrow>
     commitLoop ext fl interrupt coinbase s = commitLoop ext fl interrupt coinbase s'"
  by (induction rule: reaches.induct) (simp_all add: commitLoop.simps [of _ _ _ _ s for s])

lemma commitLoop_step:
  "commitStep ext fl interrupt coinbase s = Continue s' \<Longrightarrow>
     commitLoop ext fl interrupt coinbase s = commitLoop ext fl interrupt coinbase s'"
  by (simp add: commitLoop.simps [of _ _ _ _ s])

lemma AddGas_zero: "AddGas 0 amount = Some amount"
  by (simp add: AddGas_def)

lemma interrupted_Return:
  assumes "flag (loads s) = v" "flag (Suc (loads s)) = v" "gasPool (current s) = Some gas"
  shows "interrupted fl flag s =
           Return (v = commitInterruptNewHead)
             (s\<lparr> loads := loads s + 2,
                 resubmitAdjustCh := resubmitAdjustCh s @
                   (if v = commitInterruptResubmit
                    then [\<lparr> ratio = resubmitRatio fl (GasLimit (header (current s))) gas, inc = True \<rparr>]
                    else []) \<rparr>)"
  using assms by (simp add: interrupted_def LoadInt32_def Let_def)

lemma interrupted_unfold:
  "interrupted fl flag s =
     (if flag (loads s) = commitInterruptResubmit
      then (case gasPool (current s) of
              None \<Rightarrow> NilDereference
            | Some gas \<Rightarrow>
                Return (flag (Suc (loads s)) = commitInterruptNewHead)
                  (s\<lparr> loads := Suc (Suc (loads s)),
                      resubmitAdjustCh := resubmitAdjustCh s @
                        [\<lparr> ratio = resubmitRatio fl (GasLimit (header (current s))) gas, inc = True \<rparr>] \<rparr>))
      else Return (flag (Suc (loads s)) = commitInterruptNewHead) (s\<lparr> loads := Suc (Suc (loads s)) \<rparr>))"
  by (simp add: interrupted_def LoadInt32_def Let_def split: option.split)

lemma set_heap_push: "set (heap_push x t) = insert x (set t)"
  by (induction t) auto

lemma queued_Cons: "queued ((h, rest) # t) = insert h (set rest) \<union> queued t"
  by (simp add: queued_def)

lemma queued_heap_push: "queued (heap_push (h, rest) t) = insert h (set rest) \<union> queued t"
  by (simp add: queued_def set_heap_push)

lemma queued_Pop: "queued (Pop t) \<subseteq> queued t"
  by (cases t) (auto simp: Pop_def queued_def)

lemma queued_Shift: "queued (Shift t) \<subseteq> queued t"
proof (cases t)
  case Nil
  then show ?thesis by (simp add: Shift_def)
next
  case (Cons a others)
  obtain h rest where a: "a = (h, rest)" by (cases a)
  show ?thesis
    unfolding Cons a by (cases rest) (auto simp: Shift_def queued_heap_push queued_Cons)
qed

lemma Peek_queued: "Peek t = Some x \<Longrightarrow> x \<in> queued t"
  by (cases t) (auto simp: Peek_def queued_def)

lemma wf_Pop_other_accounts:
  assumes "wf_txset t" "Peek t = Some h"
  shows "\<forall>x \<in> queued (Pop t). sender x \<noteq> sender h"
proof -
  from assms(2) obtain rest others where t: "t = (h, rest) # others"
    by (cases t) (auto simp: Peek_def)
  have "sender x \<noteq> sender h" if "x \<in> queued others" for x
  proof -
    from that obtain h' rest' where m: "(h', rest') \<in> set others" and x: "x = h' \<or> x \<in> set rest'"
      by (auto simp: queued_def)
    from assms(1) m have "sender h' \<noteq> sender h"
      unfolding wf_txset_def t by (force simp: image_iff)
    moreover from assms(1) m x have "sender x = sender h'"
      unfolding wf_txset_def t by auto
    ultimately show ?thesis by simp
  qed
  then show ?thesis by (simp add: t Pop_def)
qed

lemma execute_applied:
  "\<exists>err. applied (execute ext coinbase s tx) = applied s @ [(tx, err)]
     \<and> pending (execute ext coinbase s tx) = advance err (pending s)"
  by (auto simp: execute_def advance_def Let_def split: prod.splits option.splits exec_error.splits)

lemma nextTransaction_Continue_cases:
  assumes "nextTransaction ext coinbase s = Continue s'"
  shows "\<exists>tx err. Peek (pending s) = Some tx \<and> applied s' = applied s @ [(tx, err)]
           \<and> pending s' = advance err (pending s)"
proof -
  from assms obtain tx where p: "Peek (pending s) = Some tx" and s': "s' = execute ext coinbase s tx"
    by (auto simp: nextTransaction_def split: option.splits if_splits)
  from execute_applied [of ext coinbase s tx] p show ?thesis unfolding s' by blast
qed

lemma commitStep_Continue_cases:
  assumes "commitStep ext fl interrupt coinbase s = Continue s'"
  shows "\<exists>tx err. Peek (pending s) = Some tx \<and> applied s' = applied s @ [(tx, err)]
           \<and> pending s' = advance err (pending s)"
proof (cases interrupt)
  case None
  with assms have "nextTransaction ext coinbase s = Continue s'"
    by (simp add: commitStep_def)
  then show ?thesis by (rule nextTransaction_Continue_cases)
next
  case (Some flag)
  with assms have "nextTransaction ext coinbase (s\<lparr> loads := Suc (loads s) \<rparr>) = Continue s'"
    by (auto simp: commitStep_def LoadInt32_def interrupted_not_Continue split: if_splits)
  from nextTransaction_Continue_cases [OF this] show ?thesis by simp
qed

lemma executed_step:
  assumes step: "commitStep ext fl interrupt coinbase s = Continue s'"
    and app: "applied s' = applied s @ [(t, e)]"
  shows "Peek (pending s) = Some t \<and> pending s' = advance e (pending s)"
  using commitStep_Continue_cases [OF step] app by auto

lemma reaches_applied_queued:
  assumes "reaches ext fl interrupt coinbase s s'"
  shows "\<exists>l. applied s' = applied s @ l \<and> fst ` set l \<subseteq> queued (pending s)
              \<and> queued (pending s') \<subseteq> queued (pending s)"
  using assms
proof (induction rule: reaches.induct)
  case (reaches_refl s)
  then show ?case by simp
next
  case (reaches_step s s' s'')
  from commitStep_Continue_cases [OF reaches_step.hyps(1)] obtain tx err where
    p: "Peek (pending s) = Some tx" and a: "applied s' = applied s @ [(tx, err)]"
    and q: "pending s' = Pop (pending s) \<or> pending s' = Shift (pending s)"
    by (auto simp: advance_def split: if_splits)
  from q have sub: "queued (pending s') \<subseteq> queued (pending s)"
    using queued_Pop queued_Shift by metis
  from reaches_step.IH obtain l where l: "applied s'' = applied s' @ l"
    "fst ` set l \<subseteq> queued (pending s')" "queued (pending s'') \<subseteq> queued (pending s')"
    by blast
  have "applied s'' = applied s @ ((tx, err) # l)" using l(1) a by simp
  moreover have "fst ` set ((tx, err) # l) \<subseteq> queued (pending s)"
    using l(2) sub Peek_queued [OF p] by auto
  moreover have "queued (pending s'') \<subseteq> queued (pending s)" using l(3) sub by blast
  ultimately show ?case by blast
qed

lemma head_attempted_or_kept:
  assumes "reaches ext fl interrupt coinbase s s'" "(n, q) \<in> set (pending s)"
  shows "(\<exists>r. (n, r) \<in> set (drop (length (applied s)) (applied s'))) \<or> (n, q) \<in> set (pending s')"
  using assms
proof (induction rule: reaches.induct)
  case (reaches_refl s)
  then show ?case by simp
next
  case (reaches_step s s' s'')
  from commitStep_Continue_cases [OF reaches_step.hyps(1)] obtain tx err where
    p: "Peek (pending s) = Some tx" and a: "applied s' = applied s @ [(tx, err)]"
    and q: "pending s' = Pop (pending s) \<or> pending s' = Shift (pending s)"
    by (auto simp: advance_def split: if_splits)
  from p obtain rest others where t: "pending s = (tx, rest) # others"
    by (cases "pending s") (auto simp: Peek_def)
  from reaches_applied_queued [OF reaches_step.hyps(2)] obtain l where l: "applied s'' = applied s' @ l"
    by blast
  have d: "drop (length (applied s)) (applied s'') = (tx, err) # l" using a l by simp
  show ?case
  proof (cases "n = tx")
    case True
    then show ?thesis using d by auto
  next
    case False
    with reaches_step.prems t have "(n, q) \<in> set others" by auto
    then have "(n, q) \<in> set (pending s')"
      using q t by (auto simp: Pop_def Shift_def set_heap_push split: list.splits)
    from reaches_step.IH [OF this] show ?thesis
    proof
      assume "\<exists>r. (n, r) \<in> set (drop (length (applied s')) (applied s''))"
      then show ?thesis using a l d by auto
    next
      assume "(n, q) \<in> set (pending s'')"
      then show ?thesis by simp
    qed
  qed
qed

lemma distinct_map_heap_push:
  "distinct (map f (heap_push x t)) \<longleftrightarrow> f x \<notin> f ` set t \<and> distinct (map f t)"
  by (induction t) (auto simp: set_heap_push)

lemma wf_txset_Pop: "wf_txset t \<Longrightarrow> wf_txset (Pop t)"
  by (cases t) (auto simp: wf_txset_def Pop_def)

lemma wf_txset_Cons:
  "wf_txset ((h, rest) # others) \<longleftrightarrow>
     sender h \<notin> (\<lambda>(h, rest). sender h) ` set others \<and> (\<forall>x \<in> set rest. sender x = sender h)
     \<and> wf_txset others"
  unfolding wf_txset_def by auto

lemma wf_txset_heap_push:
  "wf_txset (heap_push (h, rest) others) \<longleftrightarrow> wf_txset ((h, rest) # others)"
  unfolding wf_txset_def by (simp add: distinct_map_heap_push set_heap_push)

lemma wf_txset_Shift: "wf_txset t \<Longrightarrow> wf_txset (Shift t)"
proof (cases t)
  case Nil
  then show ?thesis by (simp add: Shift_def wf_txset_def)
next
  case (Cons a others)
  assume wf: "wf_txset t"
  obtain h rest where a: "a = (h, rest)" by (cases a)
  from wf have w: "sender h \<notin> (\<lambda>(h, rest). sender h) ` set others"
    "\<forall>x \<in> set rest. sender x = sender h" "wf_txset others"
    unfolding Cons a wf_txset_Cons by blast+
  show ?thesis
  proof (cases rest)
    case Nil
    with w(3) show ?thesis unfolding \<open>t = a # others\<close> a by (simp add: Shift_def)
  next
    case (Cons n rest')
    from w(2) have n: "sender n = sender h" and r: "\<forall>x \<in> set rest'. sender x = sender n"
      unfolding Cons by simp_all
    have "wf_txset ((n, rest') # others)"
      unfolding wf_txset_Cons using w(1,3) r n by simp
    then show ?thesis
      unfolding \<open>t = a # others\<close> a Cons by (simp add: Shift_def wf_txset_heap_push)
  qed
qed

lemma reaches_wf:
  "reaches ext fl interrupt coinbase s s' \<Longrightarrow> wf_txset (pending s) \<Longrightarrow> wf_txset (pending s')"
proof (induction rule: reaches.induct)
  case (reaches_refl s)
  then show ?case by simp
next
  case (reaches_step s s' s'')
  from commitStep_Continue_cases [OF reaches_step.hyps(1)]
  have "pending s' = Pop (pending s) \<or> pending s' = Shift (pending s)"
    by (auto simp: advance_def split: if_splits)
  with reaches_step.prems have "wf_txset (pending s')"
    using wf_txset_Pop wf_txset_Shift by metis
  then show ?case by (rule reaches_step.IH)
qed

lemma interrupted_final:
  assumes "interrupted fl flag s = r" "final r = Some f"
  shows "(\<exists>b. r = Return b f) \<and> applied f = applied s \<and> pending f = pending s \<and> current f = current s"
proof (cases "flag (loads s) = commitInterruptResubmit")
  case True
  show ?thesis
  proof (cases "gasPool (current s)")
    case None
    with True assms show ?thesis by (simp add: interrupted_unfold)
  next
    case (Some g)
    with True assms(1) have r: "r = Return (flag (Suc (loads s)) = commitInterruptNewHead)
                  (s\<lparr> loads := Suc (Suc (loads s)),
                      resubmitAdjustCh := resubmitAdjustCh s @
                        [\<lparr> ratio = resubmitRatio fl (GasLimit (header (current s))) g, inc = True \<rparr>] \<rparr>)"
      by (simp add: interrupted_unfold)
    with assms(2) have "f = s\<lparr> loads := Suc (Suc (loads s)),
                      resubmitAdjustCh := resubmitAdjustCh s @
                        [\<lparr> ratio = resubmitRatio fl (GasLimit (header (current s))) g, inc = True \<rparr>] \<rparr>"
      by simp
    with r show ?thesis by simp
  qed
next
  case False
  with assms(1) have r: "r = Return (flag (Suc (loads s)) = commitInterruptNewHead) (s\<lparr> loads := Suc (Suc (loads s)) \<rparr>)"
    by (simp add: interrupted_unfold)
  with assms(2) have "f = s\<lparr> loads := Suc (Suc (loads s)) \<rparr>" by simp
  with r show ?thesis by simp
qed

lemma nextTransaction_final:
  assumes "nextTransaction ext coinbase s = r" "final r = Some f"
  shows "r = Break f \<and> f = s \<and>
     ((\<exists>g. gasPool (current f) = Some g \<and> g < TxGas ext) \<or> pending f = [])"
proof (cases "gasPool (current s)")
  case None
  with assms show ?thesis by (simp add: nextTransaction_def)
next
  case (Some g)
  show ?thesis
  proof (cases "g < TxGas ext")
    case True
    with Some assms show ?thesis by (auto simp: nextTransaction_def)
  next
    case False
    show ?thesis
    proof (cases "pending s")
      case Nil
      with Some False assms show ?thesis by (auto simp: nextTransaction_def Peek_def)
    next
      case (Cons a others)
      with Some False assms show ?thesis
        by (cases a) (auto simp: nextTransaction_def Peek_def)
    qed
  qed
qed

lemma commitStep_final:
  assumes "commitStep ext fl interrupt coinbase s = r" "final r = Some f"
  shows "applied f = applied s \<and> pending f = pending s \<and> current f = current s \<and>
     ((\<exists>b. r = Return b f) \<or>
      (r = Break f \<and> ((\<exists>g. gasPool (current f) = Some g \<and> g < TxGas ext) \<or> pending f = [])))"
proof (cases interrupt)
  case None
  with assms have "nextTransaction ext coinbase s = r" by (simp add: commitStep_def)
  from nextTransaction_final [OF this assms(2)] show ?thesis by blast
next
  case (Some flag)
  show ?thesis
  proof (cases "flag (loads s) \<noteq> commitInterruptNone")
    case True
    with assms Some have "interrupted fl flag (s\<lparr> loads := Suc (loads s) \<rparr>) = r"
      by (simp add: commitStep_def LoadInt32_def)
    from interrupted_final [OF this assms(2)] show ?thesis by simp
  next
    case False
    with assms Some have "nextTransaction ext coinbase (s\<lparr> loads := Suc (loads s) \<rparr>) = r"
      by (simp add: commitStep_def LoadInt32_def)
    from nextTransaction_final [OF this assms(2)]
    have "r = Break f" "f = s\<lparr> loads := Suc (loads s) \<rparr>"
      "(\<exists>g. gasPool (current f) = Some g \<and> g < TxGas ext) \<or> pending f = []"
      by blast+
    then show ?thesis by simp
  qed
qed

lemma commitLoop_final:
  assumes "commitLoop ext fl interrupt coinbase s = r" "final r = Some f"
  shows "\<exists>last. reaches ext fl interrupt coinbase s last \<and> applied f = applied last
           \<and> pending f = pending last \<and> current f = current last
           \<and> ((\<exists>b. r = Return b f) \<or>
               (r = Break f \<and> ((\<exists>g. gasPool (current f) = Some g \<and> g < TxGas ext) \<or> pending f = [])))"
  using assms
proof (induction ext fl interrupt coinbase s rule: commitLoop.induct)
  case (1 ext fl interrupt coinbase s)
  show ?case
  proof (cases "commitStep ext fl interrupt coinbase s")
    case (Continue s')
    with "1.prems" have "commitLoop ext fl interrupt coinbase s' = r"
      by (simp add: commitLoop.simps [of _ _ _ _ s])
    from "1.IH" [OF Continue this "1.prems"(2)] obtain last where
      l: "reaches ext fl interrupt coinbase s' last" "applied f = applied last"
         "pending f = pending last" "current f = current last"
         "(\<exists>b. r = Return b f) \<or>
               (r = Break f \<and> ((\<exists>g. gasPool (current f) = Some g \<and> g < TxGas ext) \<or> pending f = []))"
      by blast
    from reaches_step [OF Continue l(1)] l show ?thesis by blast
  next
    case (Return b s')
    with "1.prems" have "commitStep ext fl interrupt coinbase s = r"
      by (simp add: commitLoop.simps [of _ _ _ _ s])
    from commitStep_final [OF this "1.prems"(2)] show ?thesis
      using reaches_refl by blast
  next
    case (Break s')
    with "1.prems" have "commitStep ext fl interrupt coinbase s = r"
      by (simp add: commitLoop.simps [of _ _ _ _ s])
    from commitStep_final [OF this "1.prems"(2)] show ?thesis
      using reaches_refl by blast
  next
    case NilDereference
    with "1.prems" show ?thesis by (simp add: commitLoop.simps [of _ _ _ _ s])
  qed
qed

lemma popped_account_not_attempted:
  assumes wf: "wf_txset (pending s)"
    and step: "commitStep ext fl interrupt coinbase s = Continue s'"
    and app: "applied s' = applied s @ [(t, e)]"
    and pop: "pending s' = Pop (pending s)"
    and run: "commitLoop ext fl interrupt coinbase s' = r" "final r = Some f"
  shows "\<forall>x \<in> fst ` set (drop (length (applied s')) (applied f)). sender x \<noteq> sender t"
proof -
  from commitStep_Continue_cases [OF step] app have p: "Peek (pending s) = Some t" by auto
  from commitLoop_final [OF run] obtain last where
    l: "reaches ext fl interrupt coinbase s' last" "applied f = applied last" by blast
  from reaches_applied_queued [OF l(1)] obtain tr where
    tr: "applied last = applied s' @ tr" "fst ` set tr \<subseteq> queued (pending s')" by blast
  have "drop (length (applied s')) (applied f) = tr" using l(2) tr(1) by simp
  moreover have "\<forall>x \<in> queued (pending s'). sender x \<noteq> sender t"
    unfolding pop by (rule wf_Pop_other_accounts [OF wf p])
  ultimately show ?thesis using tr(2) by blast
qed

subsection \<open>Interrupts (C4)\<close>

lemma interrupt_stops_at:
  assumes "reaches ext fl (Some flag) coinbase (entryState ch env txset) s"
    and "flag (loads s) = v" and "flag (loads s + 1) = v" and "flag (loads s + 2) = v"
    and "v \<noteq> commitInterruptNone"
    and "gasPool (current s) = Some gas"
  shows "commitTransactionsWithHeader ext fl running ch (Some env) txset coinbase (Some flag) =
           Finished (v = commitInterruptNewHead)
             (s\<lparr> loads := loads s + 3,
                 resubmitAdjustCh := resubmitAdjustCh s @
                   (if v = commitInterruptResubmit
                    then [\<lparr> ratio =
                             (let ratio = f_div fl (f_of_uint64 fl (GasLimit (header (current s)) - gas))
                                            (f_of_uint64 fl (GasLimit (header (current s))))
                              in if f_less fl ratio (f_lit_0_1 fl) then f_lit_0_1 fl else ratio),
                            inc = True \<rparr>]
                    else []) \<rparr>) []"
proof -
  let ?s1 = "s\<lparr> loads := Suc (loads s) \<rparr>"
  have "interrupted fl flag ?s1 = Return (v = commitInterruptNewHead)
             (?s1\<lparr> loads := loads ?s1 + 2,
                 resubmitAdjustCh := resubmitAdjustCh ?s1 @
                   (if v = commitInterruptResubmit
                    then [\<lparr> ratio = resubmitRatio fl (GasLimit (header (current ?s1))) gas, inc = True \<rparr>]
                    else []) \<rparr>)"
    by (rule interrupted_Return) (use assms in simp_all)
  then have step: "commitStep ext fl (Some flag) coinbase s = Return (v = commitInterruptNewHead)
             (s\<lparr> loads := loads s + 3,
                 resubmitAdjustCh := resubmitAdjustCh s @
                   (if v = commitInterruptResubmit
                    then [\<lparr> ratio = resubmitRatio fl (GasLimit (header (current s))) gas, inc = True \<rparr>]
                    else []) \<rparr>)"
    using assms(2,5) by (simp add: commitStep_def LoadInt32_def)
  have "commitLoop ext fl (Some flag) coinbase (entryState ch env txset)
          = commitLoop ext fl (Some flag) coinbase s"
    by (rule commitLoop_reaches) (rule assms(1))
  also have "\<dots> = Return (v = commitInterruptNewHead)
             (s\<lparr> loads := loads s + 3,
                 resubmitAdjustCh := resubmitAdjustCh s @
                   (if v = commitInterruptResubmit
                    then [\<lparr> ratio = resubmitRatio fl (GasLimit (header (current s))) gas, inc = True \<rparr>]
                    else []) \<rparr>)"
    by (subst commitLoop.simps) (simp add: step)
  finally show ?thesis
    by (simp add: commitTransactionsWithHeader_def entryState_def Let_def resubmitRatio_def)
qed

lemma gasPool_execute:
  "gasPool (current s) \<noteq> None \<Longrightarrow> gasPool (current (execute ext coinbase s tx)) \<noteq> None"
  by (auto simp: execute_def commitTransaction_def Let_def split: prod.splits option.splits exec_error.splits)

lemma gasPool_commitStep:
  assumes "commitStep ext fl interrupt coinbase s = Continue s'" "gasPool (current s) \<noteq> None"
  shows "gasPool (current s') \<noteq> None"
proof -
  have *: "gasPool (current s') \<noteq> None"
    if "nextTransaction ext coinbase s0 = Continue s'" "gasPool (current s0) \<noteq> None" for s0
  proof -
    from that(1) obtain tx where "s' = execute ext coinbase s0 tx"
      by (auto simp: nextTransaction_def split: option.splits if_splits)
    with that(2) show ?thesis by (simp add: gasPool_execute)
  qed
  show ?thesis
  proof (cases interrupt)
    case None
    with assms have "nextTransaction ext coinbase s = Continue s'" by (simp add: commitStep_def)
    from * [OF this assms(2)] show ?thesis .
  next
    case (Some flag)
    with assms have "nextTransaction ext coinbase (s\<lparr> loads := Suc (loads s) \<rparr>) = Continue s'"
      by (auto simp: commitStep_def LoadInt32_def interrupted_not_Continue split: if_splits)
    from * [OF this] assms(2) show ?thesis by simp
  qed
qed

lemma gasPool_reaches:
  "reaches ext fl interrupt coinbase s s' \<Longrightarrow> gasPool (current s) \<noteq> None \<Longrightarrow> gasPool (current s') \<noteq> None"
  by (induction rule: reaches.induct) (auto dest: gasPool_commitStep)

lemma gasPool_entryState: "gasPool (current (entryState ch env txset)) \<noteq> None"
  by (simp add: entryState_def AddGas_def)

text \<open>
  C4: when a check of the interrupt flag in a cycle finds a value \<open>v\<close> other than
  \<open>commitInterruptNone\<close> (the three loads of the check find \<open>v\<close>: a flag is stored into
  once), the function returns there, with no further transaction executed and the pending
  set as it was: it returns \<open>true\<close> exactly when \<open>v\<close> is \<open>commitInterruptNewHead\<close>, and when
  \<open>v\<close> is \<open>commitInterruptResubmit\<close> it has sent one adjustment with \<open>inc = true\<close> whose
  ratio is the quotient of the gas used so far (\<open>GasLimit - gasPool.Gas()\<close>) by the gas
  limit, replaced by \<open>0.1\<close> when it is less.
\<close>

theorem C4_interrupt_stops:
  assumes "reaches ext fl (Some flag) coinbase (entryState ch env txset) s"
    and "flag (loads s) = v" and "flag (loads s + 1) = v" and "flag (loads s + 2) = v"
    and "v \<noteq> commitInterruptNone"
  shows "\<exists>gas. gasPool (current s) = Some gas
       \<and> commitTransactionsWithHeader ext fl running ch (Some env) txset coinbase (Some flag) =
           Finished (v = commitInterruptNewHead)
             (s\<lparr> loads := loads s + 3,
                 resubmitAdjustCh := resubmitAdjustCh s @
                   (if v = commitInterruptResubmit
                    then [\<lparr> ratio =
                             (let ratio = f_div fl (f_of_uint64 fl (GasLimit (header (current s)) - gas))
                                            (f_of_uint64 fl (GasLimit (header (current s))))
                              in if f_less fl ratio (f_lit_0_1 fl) then f_lit_0_1 fl else ratio),
                            inc = True \<rparr>]
                    else []) \<rparr>) []"
proof -
  from gasPool_reaches [OF assms(1) gasPool_entryState]
  obtain gas where g: "gasPool (current s) = Some gas" by auto
  from interrupt_stops_at [OF assms g] g show ?thesis by blast
qed


text \<open>
  C4 on an example: the flag is set to \<open>commitInterruptResubmit\<close> after one transaction
  that used 30000 of 100000 gas (ratio 3/10, result \<open>false\<close>), and the flag is
  \<open>commitInterruptNewHead\<close> on entry (result \<open>true\<close>, nothing sent).
\<close>

theorem C4_interrupt_stops_witness:
  "(\<exists>s. reaches simple_ext exact_ops
           (Some (\<lambda>k. if k = 0 then commitInterruptNone else commitInterruptResubmit)) 0
           (entryState [] (simple_env (\<lambda>a. 0)) [(tx_a0, [tx_a1]), (tx_b0, [])]) s
        \<and> loads s = 1 \<and> gasPool (current s) = Some 70000 \<and> applied s = [(tx_a0, None)]
        \<and> commitTransactionsWithHeader simple_ext exact_ops True [] (Some (simple_env (\<lambda>a. 0)))
             [(tx_a0, [tx_a1]), (tx_b0, [])] 0
             (Some (\<lambda>k. if k = 0 then commitInterruptNone else commitInterruptResubmit))
           = Finished False (s\<lparr> loads := 4, resubmitAdjustCh := [\<lparr> ratio = 3 / 10, inc = True \<rparr>] \<rparr>) [])
   \<and> commitTransactionsWithHeader simple_ext exact_ops True [] (Some (simple_env (\<lambda>a. 0)))
        [(tx_a0, [tx_a1]), (tx_b0, [])] 0 (Some (\<lambda>k. commitInterruptNewHead))
      = Finished True ((entryState [] (simple_env (\<lambda>a. 0)) [(tx_a0, [tx_a1]), (tx_b0, [])])\<lparr> loads := 3 \<rparr>) []"
proof -
  let ?q = "[(tx_a0, [tx_a1]), (tx_b0, [])]"
  let ?env = "simple_env (\<lambda>a. 0)"
  let ?e = "entryState [] ?env ?q :: (address \<Rightarrow> nat, rat) cstate"
  let ?fl = "\<lambda>k::nat. if k = 0 then commitInterruptNone else commitInterruptResubmit"
  let ?s = "execute simple_ext 0 (?e\<lparr> loads := 1 \<rparr>) tx_a0"
  have step: "commitStep simple_ext exact_ops (Some ?fl) 0 ?e = Continue ?s"
    by (simp add: commitStep_def nextTransaction_def entryState_def simple_env_def simple_ext_def
        AddGas_def Peek_def LoadInt32_def)
  have reach: "reaches simple_ext exact_ops (Some ?fl) 0 ?e ?s"
    by (rule reaches_step [OF step reaches_refl])
  have l: "loads ?s = 1" and g: "gasPool (current ?s) = Some 70000"
    and a: "applied ?s = [(tx_a0, None)]" and ch: "resubmitAdjustCh ?s = []"
    and lim: "GasLimit (header (current ?s)) = 100000"
    by (simp_all add: demo_defs)
  have v: "?fl (loads ?s) = commitInterruptResubmit" "?fl (loads ?s + 1) = commitInterruptResubmit"
    "?fl (loads ?s + 2) = commitInterruptResubmit" "commitInterruptResubmit \<noteq> commitInterruptNone"
    unfolding l by (simp_all add: commitInterruptResubmit_def commitInterruptNone_def)
  from C4_interrupt_stops [OF reach v, where running = True] g
  have c: "commitTransactionsWithHeader simple_ext exact_ops True [] (Some ?env) ?q 0 (Some ?fl) =
           Finished (commitInterruptResubmit = commitInterruptNewHead)
             (?s\<lparr> loads := loads ?s + 3,
                 resubmitAdjustCh := resubmitAdjustCh ?s @
                   (if commitInterruptResubmit = commitInterruptResubmit
                    then [\<lparr> ratio =
                             (let ratio = f_div exact_ops (f_of_uint64 exact_ops (GasLimit (header (current ?s)) - 70000))
                                            (f_of_uint64 exact_ops (GasLimit (header (current ?s))))
                              in if f_less exact_ops ratio (f_lit_0_1 exact_ops) then f_lit_0_1 exact_ops else ratio),
                            inc = True \<rparr>]
                    else []) \<rparr>) []"
    by auto
  have r: "(let ratio = f_div exact_ops (f_of_uint64 exact_ops (100000 - 70000)) (f_of_uint64 exact_ops 100000)
            in if f_less exact_ops ratio (f_lit_0_1 exact_ops) then f_lit_0_1 exact_ops else ratio) = 3 / 10"
    by (simp add: exact_ops_def Let_def)
  have one: "commitTransactionsWithHeader simple_ext exact_ops True [] (Some ?env) ?q 0 (Some ?fl)
           = Finished False (?s\<lparr> loads := 4, resubmitAdjustCh := [\<lparr> ratio = 3 / 10, inc = True \<rparr>] \<rparr>) []"
    using c unfolding l ch lim r
    by (simp add: commitInterruptResubmit_def commitInterruptNewHead_def)
  have part1: "\<exists>s. reaches simple_ext exact_ops (Some ?fl) 0 ?e s
        \<and> loads s = 1 \<and> gasPool (current s) = Some 70000 \<and> applied s = [(tx_a0, None)]
        \<and> commitTransactionsWithHeader simple_ext exact_ops True [] (Some ?env) ?q 0 (Some ?fl)
           = Finished False (s\<lparr> loads := 4, resubmitAdjustCh := [\<lparr> ratio = 3 / 10, inc = True \<rparr>] \<rparr>) []"
    by (rule exI [of _ ?s]) (intro conjI reach l g a one)
  have g0: "gasPool (current ?e) = Some 100000" and l0: "loads ?e = 0" and ch0: "resubmitAdjustCh ?e = []"
    by (simp_all add: entryState_def simple_env_def AddGas_def)
  have "commitTransactionsWithHeader simple_ext exact_ops True [] (Some ?env) ?q 0 (Some (\<lambda>k. commitInterruptNewHead))
      = Finished (commitInterruptNewHead = commitInterruptNewHead)
             (?e\<lparr> loads := loads ?e + 3,
                 resubmitAdjustCh := resubmitAdjustCh ?e @
                   (if commitInterruptNewHead = commitInterruptResubmit
                    then [\<lparr> ratio =
                             (let ratio = f_div exact_ops (f_of_uint64 exact_ops (GasLimit (header (current ?e)) - 100000))
                                            (f_of_uint64 exact_ops (GasLimit (header (current ?e))))
                              in if f_less exact_ops ratio (f_lit_0_1 exact_ops) then f_lit_0_1 exact_ops else ratio),
                            inc = True \<rparr>]
                    else []) \<rparr>) []"
    using C4_interrupt_stops [where flag = "\<lambda>k. commitInterruptNewHead" and ext = simple_ext
        and fl = exact_ops and coinbase = 0 and ch = "[]" and env = "?env" and txset = "?q"
        and s = "?e" and v = commitInterruptNewHead and running = True, OF reaches_refl refl refl refl] g0
    by (auto simp: commitInterruptNewHead_def commitInterruptNone_def)
  then have part2: "commitTransactionsWithHeader simple_ext exact_ops True [] (Some ?env) ?q 0 (Some (\<lambda>k. commitInterruptNewHead))
      = Finished True (?e\<lparr> loads := 3 \<rparr>) []"
    unfolding l0 ch0
    by (simp add: commitInterruptResubmit_def commitInterruptNewHead_def entryState_def)
  from part1 part2 show ?thesis by (intro conjI)
qed

subsection \<open>Nonce errors (C1)\<close>

text \<open>
  C1, as stated, when the interrupt flag is set between two transactions: \<open>tx_a0\<close> fails
  with nonce-too-low, the next check finds \<open>commitInterruptNewHead\<close> and the function
  returns \<open>true\<close>; \<open>tx_a1\<close>, the next transaction of the same account, is still queued and
  was not attempted in the cycle.
\<close>

theorem C1_next_not_attempted_on_interrupt:
  "outcome (commitTransactionsWithHeader simple_ext exact_ops True []
      (Some (simple_env (\<lambda>a. if a = 1 then 1 else 0))) [(tx_a0, [tx_a1]), (tx_b0, [])] 0
      (Some (\<lambda>k. if k = 0 then commitInterruptNone else commitInterruptNewHead)))
     = (Some True, [(tx_a0, Some ErrNonceTooLow)], [(tx_a1, []), (tx_b0, [])])"
  by (simp add: commitTransactionsWithHeader_def commitLoop.simps demo_defs)

text \<open>
  C1 (amended): in a cycle of \<open>commitTransactionsWithHeader\<close> on a well-formed pending
  set, when the execution of a transaction \<open>t\<close> of account A fails with nonce-too-high, A's
  queue is popped and no transaction of A is executed in the rest of the cycle; when it
  fails with nonce-too-low, only \<open>t\<close> is taken out (\<open>Shift\<close>): the next transaction \<open>n\<close> of A
  takes its place in the set, the other queues stay, and \<open>n\<close> is executed later in the
  cycle unless the loop ends first, on an interrupt or on a gas pool below \<open>TxGas\<close>, with
  \<open>n\<close> still at the head of A's queue.
\<close>

theorem C1_nonce_errors:
  assumes wf: "wf_txset txset"
    and reach: "reaches ext fl interrupt coinbase (entryState ch env txset) s"
    and step: "commitStep ext fl interrupt coinbase s = Continue s'"
    and app: "applied s' = applied s @ [(t, Some e)]"
    and run: "commitLoop ext fl interrupt coinbase (entryState ch env txset) = r"
    and fin: "final r = Some f"
  shows "(e = ErrNonceTooHigh \<longrightarrow>
            pending s' = Pop (pending s)
            \<and> (\<forall>x \<in> fst ` set (drop (length (applied s')) (applied f)). sender x \<noteq> sender t))
       \<and> (e = ErrNonceTooLow \<longrightarrow>
            pending s' = Shift (pending s)
            \<and> (\<forall>n rest others. pending s = (t, n # rest) # others \<longrightarrow>
                  set (pending s') = insert (n, rest) (set others)
                  \<and> (n \<in> fst ` set (drop (length (applied s')) (applied f))
                     \<or> (n, rest) \<in> set (pending f)
                        \<and> ((\<exists>b. r = Return b f)
                           \<or> (\<exists>g. gasPool (current f) = Some g \<and> g < TxGas ext)))))"
proof -
  have wfs: "wf_txset (pending s)"
    using reaches_wf [OF reach] wf by (simp add: entryState_def)
  have run': "commitLoop ext fl interrupt coinbase s' = r"
    using commitLoop_reaches [OF reach] commitLoop_step [OF step] run by simp
  from executed_step [OF step app]
  have p: "Peek (pending s) = Some t" and adv: "pending s' = advance (Some e) (pending s)"
    by simp_all
  have high: "pending s' = Pop (pending s)
      \<and> (\<forall>x \<in> fst ` set (drop (length (applied s')) (applied f)). sender x \<noteq> sender t)"
    if "e = ErrNonceTooHigh"
  proof -
    from adv that have pop: "pending s' = Pop (pending s)" by (simp add: advance_def)
    from popped_account_not_attempted [OF wfs step app pop run' fin] pop show ?thesis by simp
  qed
  have low: "pending s' = Shift (pending s)
      \<and> (\<forall>n rest others. pending s = (t, n # rest) # others \<longrightarrow>
            set (pending s') = insert (n, rest) (set others)
            \<and> (n \<in> fst ` set (drop (length (applied s')) (applied f))
               \<or> (n, rest) \<in> set (pending f)
                  \<and> ((\<exists>b. r = Return b f)
                     \<or> (\<exists>g. gasPool (current f) = Some g \<and> g < TxGas ext))))"
    if "e = ErrNonceTooLow"
  proof -
    from adv that have sh: "pending s' = Shift (pending s)" by (simp add: advance_def)
    have "set (pending s') = insert (n, rest) (set others)
            \<and> (n \<in> fst ` set (drop (length (applied s')) (applied f))
               \<or> (n, rest) \<in> set (pending f)
                  \<and> ((\<exists>b. r = Return b f)
                     \<or> (\<exists>g. gasPool (current f) = Some g \<and> g < TxGas ext)))"
      if q: "pending s = (t, n # rest) # others" for n rest others
    proof -
      have set': "set (pending s') = insert (n, rest) (set others)"
        unfolding sh q by (simp add: Shift_def set_heap_push)
      from commitLoop_final [OF run' fin] obtain last where
        l: "reaches ext fl interrupt coinbase s' last" "applied f = applied last"
           "pending f = pending last"
           "(\<exists>b. r = Return b f) \<or>
               (r = Break f \<and> ((\<exists>g. gasPool (current f) = Some g \<and> g < TxGas ext) \<or> pending f = []))"
        by blast
      have "(n, rest) \<in> set (pending s')" using set' by simp
      from head_attempted_or_kept [OF l(1) this]
      have "n \<in> fst ` set (drop (length (applied s')) (applied f)) \<or> (n, rest) \<in> set (pending f)"
        unfolding l(2) l(3) by force
      moreover have "(\<exists>b. r = Return b f) \<or> (\<exists>g. gasPool (current f) = Some g \<and> g < TxGas ext)"
        if "(n, rest) \<in> set (pending f)"
      proof -
        from that have "pending f \<noteq> []" by auto
        with l(4) show ?thesis by blast
      qed
      ultimately show ?thesis using set' by blast
    qed
    with sh show ?thesis by blast
  qed
  from high low show ?thesis by blast
qed

text \<open>
  C1 on examples: \<open>tx_a5\<close> fails with nonce-too-high and only \<open>tx_b0\<close> of the other account
  follows; \<open>tx_a0\<close> fails with nonce-too-low and \<open>tx_a1\<close> of the same account is executed
  later in the cycle.
\<close>

theorem C1_nonce_errors_witness:
  "wf_txset [(tx_a5, [tx_a6]), (tx_b0, [])]
   \<and> (\<exists>s' f. commitStep simple_ext exact_ops None 0
                (entryState [] (simple_env (\<lambda>a. 0)) [(tx_a5, [tx_a6]), (tx_b0, [])]) = Continue s'
         \<and> applied s' = [(tx_a5, Some ErrNonceTooHigh)]
         \<and> final (commitLoop simple_ext exact_ops None 0
                (entryState [] (simple_env (\<lambda>a. 0)) [(tx_a5, [tx_a6]), (tx_b0, [])])) = Some f
         \<and> pending s' = [(tx_b0, [])]
         \<and> map fst (applied f) = [tx_a5, tx_b0]
         \<and> \<not> (\<exists>x \<in> fst ` set (drop 1 (applied f)). sender x = sender tx_a5))
   \<and> (\<exists>s' f. commitStep simple_ext exact_ops None 0
                (entryState [] (simple_env (\<lambda>a. if a = 1 then 1 else 0)) [(tx_a0, [tx_a1]), (tx_b0, [])]) = Continue s'
         \<and> applied s' = [(tx_a0, Some ErrNonceTooLow)]
         \<and> final (commitLoop simple_ext exact_ops None 0
                (entryState [] (simple_env (\<lambda>a. if a = 1 then 1 else 0)) [(tx_a0, [tx_a1]), (tx_b0, [])])) = Some f
         \<and> set (pending s') = {(tx_a1, []), (tx_b0, [])}
         \<and> tx_a1 \<in> fst ` set (drop 1 (applied f)))"
proof -
  let ?hi = "[(tx_a5, [tx_a6]), (tx_b0, [])]"
  let ?e1 = "entryState [] (simple_env (\<lambda>a. 0)) ?hi :: (address \<Rightarrow> nat, rat) cstate"
  let ?s1 = "execute simple_ext 0 ?e1 tx_a5"
  have wf1: "wf_txset ?hi" by (simp add: wf_txset_def demo_defs)
  have step1: "commitStep simple_ext exact_ops None 0 ?e1 = Continue ?s1"
    by (simp add: commitStep_def nextTransaction_def entryState_def simple_env_def simple_ext_def
        AddGas_def Peek_def)
  have app1: "applied ?s1 = applied ?e1 @ [(tx_a5, Some ErrNonceTooHigh)]"
    by (simp add: demo_defs)
  have "\<exists>f. final (commitLoop simple_ext exact_ops None 0 ?e1) = Some f
            \<and> map fst (applied f) = [tx_a5, tx_b0]"
    by (simp add: commitLoop.simps demo_defs)
  then obtain f1 where f1: "final (commitLoop simple_ext exact_ops None 0 ?e1) = Some f1"
    "map fst (applied f1) = [tx_a5, tx_b0]" by auto
  have len1: "length (applied ?s1) = 1" using app1 by (simp add: entryState_def)
  note c1 = C1_nonce_errors [OF wf1 reaches_refl step1 app1 refl f1(1)]
  then have "pending ?s1 = Pop (pending ?e1)"
    and n1: "\<forall>x \<in> fst ` set (drop 1 (applied f1)). sender x \<noteq> sender tx_a5"
    unfolding len1 by simp_all
  then have p1: "pending ?s1 = [(tx_b0, [])]" by (simp add: entryState_def Pop_def)
  have a1: "applied ?s1 = [(tx_a5, Some ErrNonceTooHigh)]" using app1 by (simp add: entryState_def)
  have part1: "\<exists>s' f. commitStep simple_ext exact_ops None 0 ?e1 = Continue s'
         \<and> applied s' = [(tx_a5, Some ErrNonceTooHigh)]
         \<and> final (commitLoop simple_ext exact_ops None 0 ?e1) = Some f
         \<and> pending s' = [(tx_b0, [])]
         \<and> map fst (applied f) = [tx_a5, tx_b0]
         \<and> \<not> (\<exists>x \<in> fst ` set (drop 1 (applied f)). sender x = sender tx_a5)"
    by (rule exI [of _ ?s1], rule exI [of _ f1]) (use step1 a1 f1 p1 n1 in auto)
  let ?lo = "[(tx_a0, [tx_a1]), (tx_b0, [])]"
  let ?e2 = "entryState [] (simple_env (\<lambda>a. if a = 1 then 1 else 0)) ?lo :: (address \<Rightarrow> nat, rat) cstate"
  let ?s2 = "execute simple_ext 0 ?e2 tx_a0"
  have wf2: "wf_txset ?lo" by (simp add: wf_txset_def demo_defs)
  have step2: "commitStep simple_ext exact_ops None 0 ?e2 = Continue ?s2"
    by (simp add: commitStep_def nextTransaction_def entryState_def simple_env_def simple_ext_def
        AddGas_def Peek_def)
  have app2: "applied ?s2 = applied ?e2 @ [(tx_a0, Some ErrNonceTooLow)]"
    by (simp add: demo_defs)
  have "\<exists>f. final (commitLoop simple_ext exact_ops None 0 ?e2) = Some f \<and> pending f = []"
    by (simp add: commitLoop.simps demo_defs)
  then obtain f2 where f2: "final (commitLoop simple_ext exact_ops None 0 ?e2) = Some f2"
    "pending f2 = []" by auto
  have len2: "length (applied ?s2) = 1" using app2 by (simp add: entryState_def)
  have q2: "pending ?e2 = (tx_a0, tx_a1 # []) # [(tx_b0, [])]" by (simp add: entryState_def)
  note c2 = C1_nonce_errors [OF wf2 reaches_refl step2 app2 refl f2(1)]
  then have "set (pending ?s2) = insert (tx_a1, []) (set [(tx_b0, [])])
                  \<and> (tx_a1 \<in> fst ` set (drop (length (applied ?s2)) (applied f2))
                     \<or> (tx_a1, []) \<in> set (pending f2)
                        \<and> ((\<exists>b. commitLoop simple_ext exact_ops None 0 ?e2 = Return b f2)
                           \<or> (\<exists>g. gasPool (current f2) = Some g \<and> g < TxGas simple_ext)))"
    using q2 by blast
  then have s2: "set (pending ?s2) = {(tx_a1, []), (tx_b0, [])}"
    and n2: "tx_a1 \<in> fst ` set (drop 1 (applied f2))"
    unfolding len2 f2(2) by simp_all
  have a2: "applied ?s2 = [(tx_a0, Some ErrNonceTooLow)]" using app2 by (simp add: entryState_def)
  have part2: "\<exists>s' f. commitStep simple_ext exact_ops None 0 ?e2 = Continue s'
         \<and> applied s' = [(tx_a0, Some ErrNonceTooLow)]
         \<and> final (commitLoop simple_ext exact_ops None 0 ?e2) = Some f
         \<and> set (pending s') = {(tx_a1, []), (tx_b0, [])}
         \<and> tx_a1 \<in> fst ` set (drop 1 (applied f))"
    by (rule exI [of _ ?s2], rule exI [of _ f2]) (use step2 a2 f2 s2 n2 in auto)
  from wf1 part1 part2 show ?thesis by (intro conjI)
qed

subsection \<open>Gas limit reached (C2)\<close>

text \<open>
  C2, as stated: \<open>tx_a_big\<close> fails with \<open>ErrGasLimitReached\<close>; the loop runs on until the set
  is empty, with gas left, and \<open>tx_a1\<close> of the same account is never attempted.
\<close>

theorem C2_rest_of_account_not_attempted:
  "outcome (commitTransactionsWithHeader simple_ext exact_ops True []
      (Some (simple_env (\<lambda>a. 0))) [(tx_a_big, [tx_a1]), (tx_b0, [])] 0 None)
     = (Some False, [(tx_a_big, Some ErrGasLimitReached), (tx_b0, None)], [])"
  by (simp add: commitTransactionsWithHeader_def afterLoop_def commitLoop.simps demo_defs)

text \<open>
  C2 (amended): when the execution of a transaction \<open>t\<close> of account A fails with
  \<open>ErrGasLimitReached\<close>, the account's queue is popped "without shifting in the next from
  the account", as for nonce-too-high: the other accounts' queues are what remains, and no
  transaction of A is executed in the rest of the cycle.
\<close>

theorem C2_gas_limit_pops_account:
  assumes wf: "wf_txset txset"
    and reach: "reaches ext fl interrupt coinbase (entryState ch env txset) s"
    and step: "commitStep ext fl interrupt coinbase s = Continue s'"
    and app: "applied s' = applied s @ [(t, Some ErrGasLimitReached)]"
    and run: "commitLoop ext fl interrupt coinbase (entryState ch env txset) = r"
    and fin: "final r = Some f"
  shows "pending s' = Pop (pending s)
       \<and> (\<exists>rest. pending s = (t, rest) # pending s')
       \<and> (\<forall>x \<in> fst ` set (drop (length (applied s')) (applied f)). sender x \<noteq> sender t)"
proof -
  have wfs: "wf_txset (pending s)"
    using reaches_wf [OF reach] wf by (simp add: entryState_def)
  have run': "commitLoop ext fl interrupt coinbase s' = r"
    using commitLoop_reaches [OF reach] commitLoop_step [OF step] run by simp
  from executed_step [OF step app]
  have p: "Peek (pending s) = Some t" and pop: "pending s' = Pop (pending s)"
    by (simp_all add: advance_def)
  from p obtain rest others where q: "pending s = (t, rest) # others"
    by (cases "pending s") (auto simp: Peek_def)
  have "\<exists>rest. pending s = (t, rest) # pending s'"
    unfolding pop q by (simp add: Pop_def)
  with popped_account_not_attempted [OF wfs step app pop run' fin] pop show ?thesis by simp
qed

text \<open>
  C2 on the same example: after the failure of \<open>tx_a_big\<close> only \<open>tx_b0\<close> of the other
  account is left and executed.
\<close>

theorem C2_gas_limit_pops_account_witness:
  "wf_txset [(tx_a_big, [tx_a1]), (tx_b0, [])]
   \<and> (\<exists>s' f. commitStep simple_ext exact_ops None 0
                (entryState [] (simple_env (\<lambda>a. 0)) [(tx_a_big, [tx_a1]), (tx_b0, [])]) = Continue s'
         \<and> applied s' = [(tx_a_big, Some ErrGasLimitReached)]
         \<and> final (commitLoop simple_ext exact_ops None 0
                (entryState [] (simple_env (\<lambda>a. 0)) [(tx_a_big, [tx_a1]), (tx_b0, [])])) = Some f
         \<and> pending s' = [(tx_b0, [])]
         \<and> map fst (applied f) = [tx_a_big, tx_b0]
         \<and> \<not> (\<exists>x \<in> fst ` set (drop 1 (applied f)). sender x = sender tx_a_big))"
proof -
  let ?q = "[(tx_a_big, [tx_a1]), (tx_b0, [])]"
  let ?e = "entryState [] (simple_env (\<lambda>a. 0)) ?q :: (address \<Rightarrow> nat, rat) cstate"
  let ?s = "execute simple_ext 0 ?e tx_a_big"
  have wf: "wf_txset ?q" by (simp add: wf_txset_def demo_defs)
  have step: "commitStep simple_ext exact_ops None 0 ?e = Continue ?s"
    by (simp add: commitStep_def nextTransaction_def entryState_def simple_env_def simple_ext_def
        AddGas_def Peek_def)
  have app: "applied ?s = applied ?e @ [(tx_a_big, Some ErrGasLimitReached)]"
    by (simp add: demo_defs)
  have "\<exists>f. final (commitLoop simple_ext exact_ops None 0 ?e) = Some f
            \<and> map fst (applied f) = [tx_a_big, tx_b0]"
    by (simp add: commitLoop.simps demo_defs)
  then obtain f where f: "final (commitLoop simple_ext exact_ops None 0 ?e) = Some f"
    "map fst (applied f) = [tx_a_big, tx_b0]" by auto
  have len: "length (applied ?s) = 1" using app by (simp add: entryState_def)
  note c = C2_gas_limit_pops_account [OF wf reaches_refl step app refl f(1)]
  then have "pending ?s = Pop (pending ?e)"
    and n: "\<forall>x \<in> fst ` set (drop 1 (applied f)). sender x \<noteq> sender tx_a_big"
    unfolding len by simp_all
  then have p: "pending ?s = [(tx_b0, [])]" by (simp add: entryState_def Pop_def)
  have a: "applied ?s = [(tx_a_big, Some ErrGasLimitReached)]" using app by (simp add: entryState_def)
  have "\<exists>s' f. commitStep simple_ext exact_ops None 0 ?e = Continue s'
         \<and> applied s' = [(tx_a_big, Some ErrGasLimitReached)]
         \<and> final (commitLoop simple_ext exact_ops None 0 ?e) = Some f
         \<and> pending s' = [(tx_b0, [])]
         \<and> map fst (applied f) = [tx_a_big, tx_b0]
         \<and> \<not> (\<exists>x \<in> fst ` set (drop 1 (applied f)). sender x = sender tx_a_big)"
    by (rule exI [of _ ?s], rule exI [of _ f]) (use step a f p n in auto)
  with wf show ?thesis by (intro conjI)
qed

end
